theory Spec2Isabelle
  imports Main "HOL-Library.Word" "HOL-Library.Sublist"
begin

unbundle bit_operations_syntax

section \<open>Byte buffers and the Python primitives the injector uses\<close>

text \<open>
  The injector (rpx_inject.py) works on Python \<open>bytearray\<close> values: finite sequences
  of integers in 0..255. A buffer is a list of 8-bit words; lengths are naturals; every
  integer that comes from the command line (offset, original size) or can be the
  sentinel -1 is an unbounded \<open>int\<close>, as in Python.
\<close>

type_synonym byte = "8 word"

text \<open>
  Python slicing \<open>xs[lo:hi]\<close>, \<open>xs[:hi]\<close> and \<open>xs[lo:]\<close>: a negative bound
  counts from the end, and every bound is clamped to \<open>0..len(xs)\<close>; a slice never raises.
\<close>

definition py_clamp :: "nat \<Rightarrow> int \<Rightarrow> nat" where
  "py_clamp n i = (if i < 0 then nat (max (i + int n) 0) else min (nat i) n)"

definition py_slice :: "'a list \<Rightarrow> int \<Rightarrow> int \<Rightarrow> 'a list" where
  "py_slice xs lo hi =
     (let a = py_clamp (length xs) lo; b = py_clamp (length xs) hi
      in take (b - a) (drop a xs))"

definition py_slice_to :: "'a list \<Rightarrow> int \<Rightarrow> 'a list" where
  "py_slice_to xs hi = take (py_clamp (length xs) hi) xs"

definition py_slice_from :: "'a list \<Rightarrow> int \<Rightarrow> 'a list" where
  "py_slice_from xs lo = drop (py_clamp (length xs) lo) xs"

text \<open>
  \<open>bytes.find(sub)\<close>: the lowest index at which \<open>sub\<close> occurs in the buffer, or -1.
  The empty pattern is found at 0.
\<close>

fun bytes_find_from :: "byte list \<Rightarrow> byte list \<Rightarrow> int \<Rightarrow> int" where
  "bytes_find_from [] sub i = (if sub = [] then i else -1)"
| "bytes_find_from (x # xs) sub i =
     (if prefix sub (x # xs) then i else bytes_find_from xs sub (i + 1))"

definition bytes_find :: "byte list \<Rightarrow> byte list \<Rightarrow> int" where
  "bytes_find xs sub = bytes_find_from xs sub 0"

text \<open>
  The pattern \<open>sub\<close> occurs in \<open>xs\<close> at index \<open>j\<close>, byte for byte: the
  vocabulary in which the results of \<open>bytes.find\<close> are stated.
\<close>

definition occurs_at :: "byte list \<Rightarrow> byte list \<Rightarrow> nat \<Rightarrow> bool" where
  "occurs_at xs sub j = (j + length sub \<le> length xs \<and> take (length sub) (drop j xs) = sub)"

text \<open>The exceptions the modelled code can raise.\<close>

datatype py_error = IndexError | StructError | OverflowError | MemoryError

text \<open>
  \<open>rpx_data[i]\<close>: a negative index counts from the end; out of range raises IndexError.
\<close>

definition py_index :: "'a list \<Rightarrow> int \<Rightarrow> py_error + 'a" where
  "py_index xs i =
     (if i < - int (length xs) \<or> int (length xs) \<le> i then Inl IndexError
      else if i < 0 then Inr (xs ! nat (i + int (length xs)))
      else Inr (xs ! nat i))"

text \<open>
  \<open>struct.unpack('<H', b)[0]\<close> on the two bytes \<open>lo\<close>, \<open>hi\<close>: an unsigned 16-bit
  little-endian value.
\<close>

definition unpack_H :: "byte \<Rightarrow> byte \<Rightarrow> nat" where
  "unpack_H lo hi = unat lo + 256 * unat hi"

text \<open>
  \<open>struct.pack_into('<H', data, off, v)\<close>: writes \<open>v\<close> as two little-endian bytes at
  \<open>off\<close>, in place. A negative offset counts from the end of the buffer. It raises
  struct.error when the two bytes do not fit at the offset or \<open>v\<close> is not in 0..65535.
  The model returns the updated buffer.
\<close>

definition pack_into_H :: "byte list \<Rightarrow> int \<Rightarrow> nat \<Rightarrow> py_error + byte list" where
  "pack_into_H data off v =
     (let n = int (length data) in
      if off < 0 \<and> off + 2 > 0 then Inl StructError
      else if off < 0 \<and> off + n < 0 then Inl StructError
      else
        let p = (if off < 0 then off + n else off) in
        if n - p < 2 then Inl StructError
        else if v > 65535 then Inl StructError
        else Inr (data[nat p := of_nat (v mod 256), nat p + 1 := of_nat (v div 256)]))"

text \<open>
  \<open>[x] * n\<close>, list repetition. A count beyond the largest index of the interpreter
  (\<open>sys.maxsize\<close>, \<open>2 ** 63 - 1\<close> on 64-bit CPython) raises OverflowError; a list that the
  machine cannot allocate raises MemoryError. How long a list the machine can allocate is
  not fixed by the program: \<open>mem\<close> is that length, a parameter of the model. A count that
  is not positive gives the empty list.
\<close>

definition PY_SSIZE_T_MAX :: int where
  "PY_SSIZE_T_MAX = 2 ^ 63 - 1"

definition py_list_repeat :: "nat \<Rightarrow> 'a \<Rightarrow> int \<Rightarrow> py_error + 'a list" where
  "py_list_repeat mem x n =
     (if n > PY_SSIZE_T_MAX then Inl OverflowError
      else if n > int mem then Inl MemoryError
      else Inr (replicate (nat n) x))"

section \<open>Constants and enumerations of the injector\<close>

definition SNES_LOROM_HEADER :: nat where
  "SNES_LOROM_HEADER = 0x7FC0"

definition SNES_HIROM_HEADER :: nat where
  "SNES_HIROM_HEADER = 0xFFC0"

text \<open>The signature \<open>b'WUP-'\<close>.\<close>

definition WUP_SIGNATURE :: "byte list" where
  "WUP_SIGNATURE = [0x57, 0x55, 0x50, 0x2D]"

definition SNES_TITLE_OFFSET :: nat where
  "SNES_TITLE_OFFSET = 0x00"

definition SNES_CHECKSUM_COMP_OFFSET :: nat where
  "SNES_CHECKSUM_COMP_OFFSET = 0x1C"

definition SNES_CHECKSUM_OFFSET :: nat where
  "SNES_CHECKSUM_OFFSET = 0x1E"

text \<open>The \<open>system\<close> argument (\<open>'snes'\<close> or \<open>'nes'\<close>) and the ROM type strings
  (\<open>'lorom'\<close>, \<open>'hirom'\<close>; Python's \<open>None\<close> is \<open>None\<close> of the option type).\<close>

datatype console = SNES | NES

datatype rom_type = LoROM | HiROM

section \<open>ROM normalizer and header codec\<close>

text \<open>\<open>strip_smc_header\<close> (lines 71-83): drop a 512-byte copier header.\<close>

definition strip_smc_header :: "byte list \<Rightarrow> byte list" where
  "strip_smc_header rom_data =
     (let size = length rom_data in
      if size mod 1024 = 512 then drop 512 rom_data else rom_data)"

text \<open>
  \<open>validate_snes_header\<close> (lines 86-110). The offset is a natural number: every call in
  the program passes a constant or a sum of non-negative values. Under the length guard
  the header slice has exactly 32 bytes, so both two-byte fields exist and
  \<open>struct.unpack\<close> cannot raise. The two fields read from the header are named on
  their own, since the checksum repair is stated in terms of them.
\<close>

definition header_checksum :: "byte list \<Rightarrow> nat \<Rightarrow> nat" where
  "header_checksum data offset =
     (let header = take 0x20 (drop offset data)
      in unpack_H (header ! SNES_CHECKSUM_OFFSET) (header ! (SNES_CHECKSUM_OFFSET + 1)))"

definition header_complement :: "byte list \<Rightarrow> nat \<Rightarrow> nat" where
  "header_complement data offset =
     (let header = take 0x20 (drop offset data)
      in unpack_H (header ! SNES_CHECKSUM_COMP_OFFSET) (header ! (SNES_CHECKSUM_COMP_OFFSET + 1)))"

definition validate_snes_header :: "byte list \<Rightarrow> nat \<Rightarrow> bool" where
  "validate_snes_header data offset =
     (if offset + 0x20 > length data then False
      else
        let header = take 0x20 (drop offset data);
            checksum = header_checksum data offset;
            complement = header_complement data offset
        in if (checksum + complement) AND 0xFFFF = 0xFFFF then True
           else
             let title = take 21 (drop SNES_TITLE_OFFSET header);
                 printable = length (filter (\<lambda>b. 0x20 \<le> b \<and> b \<le> 0x7E \<or> b = 0x00) title)
             in if printable \<ge> 15 then True else False)"

text \<open>\<open>detect_snes_rom_type\<close> (lines 113-128).\<close>

definition detect_snes_rom_type :: "byte list \<Rightarrow> rom_type option" where
  "detect_snes_rom_type rom_data =
     (if length rom_data > SNES_LOROM_HEADER + 0x20
         \<and> validate_snes_header rom_data SNES_LOROM_HEADER then Some LoROM
      else if length rom_data > SNES_HIROM_HEADER + 0x20
         \<and> validate_snes_header rom_data SNES_HIROM_HEADER then Some HiROM
      else None)"

text \<open>
  \<open>update_snes_header_checksum\<close> (lines 261-278). \<open>header_position\<close> is its
  \<open>header_offset\<close> (lines 265-268). The buffer is mutated in place; the model returns
  the buffer after both writes, or the exception of the first write that raises.
\<close>

definition header_position :: "int \<Rightarrow> rom_type \<Rightarrow> int" where
  "header_position offset rt =
     (if rt = LoROM then offset + int SNES_LOROM_HEADER
      else offset + int SNES_HIROM_HEADER)"

definition update_snes_header_checksum ::
    "byte list \<Rightarrow> int \<Rightarrow> rom_type \<Rightarrow> py_error + byte list" where
  "update_snes_header_checksum data offset rt =
     (let header_offset = header_position offset rt;
          checksum = sum_list (map unat (py_slice_from data offset)) AND 0xFFFF;
          complement = checksum XOR 0xFFFF
      in case pack_into_H data (header_offset + int SNES_CHECKSUM_COMP_OFFSET) complement of
           Inl e \<Rightarrow> Inl e
         | Inr data1 \<Rightarrow> pack_into_H data1 (header_offset + int SNES_CHECKSUM_OFFSET) checksum)"

section \<open>Offset locator\<close>

definition find_wup_header :: "byte list \<Rightarrow> int" where
  "find_wup_header rpx_data = bytes_find rpx_data WUP_SIGNATURE"

text \<open>
  Strategy 1 of \<open>find_rom_in_rpx\<close> (lines 152-165): the loop over the candidate deltas
  after the WUP header. \<open>None\<close> means that the loop ended without returning.
\<close>

fun probe_deltas :: "byte list \<Rightarrow> byte list \<Rightarrow> console \<Rightarrow> int \<Rightarrow> int list \<Rightarrow> int option" where
  "probe_deltas rpx_data rom_data system wup_offset [] = None"
| "probe_deltas rpx_data rom_data system wup_offset (delta # deltas) =
     (let candidate = wup_offset + delta in
      if candidate + int (length rom_data) \<le> int (length rpx_data)
         \<and> system = SNES
         \<and> detect_snes_rom_type (py_slice rpx_data candidate (candidate + 0x10000)) \<noteq> None
      then Some candidate
      else probe_deltas rpx_data rom_data system wup_offset deltas)"

definition strategy1 :: "byte list \<Rightarrow> byte list \<Rightarrow> console \<Rightarrow> int option" where
  "strategy1 rpx_data rom_data system =
     (let wup_offset = find_wup_header rpx_data in
      if wup_offset \<noteq> -1
      then probe_deltas rpx_data rom_data system wup_offset [0x20, 0x30, 0x40, 0x100, 0x200]
      else None)"

text \<open>
  Strategy 2 (lines 167-188): \<open>for offset in range(search_start, search_end, 0x8000)\<close>.
\<close>

function scan_headers :: "byte list \<Rightarrow> nat \<Rightarrow> nat \<Rightarrow> int \<Rightarrow> int option" where
  "scan_headers rpx_data header_offset offset search_end =
     (if int offset < search_end then
        (if validate_snes_header rpx_data (offset + header_offset) then Some (int offset)
         else scan_headers rpx_data header_offset (offset + 0x8000) search_end)
      else None)"
  by pat_completeness auto
termination
  by (relation "measure (\<lambda>(rpx_data, header_offset, offset, search_end). nat (search_end - int offset))")
     auto

definition strategy2 :: "byte list \<Rightarrow> byte list \<Rightarrow> console \<Rightarrow> int option" where
  "strategy2 rpx_data rom_data system =
     (if system = SNES then
        let rt = detect_snes_rom_type rom_data;
            header_offset =
              (if rt = Some LoROM then SNES_LOROM_HEADER
               else if rt = Some HiROM then SNES_HIROM_HEADER
               else SNES_LOROM_HEADER)
        in if length rom_data > header_offset + 0x20
           then scan_headers rpx_data header_offset 0x100000 (int (length rpx_data) - 0x10000)
           else None
      else None)"

text \<open>Strategy 3 (lines 190-197), with the final \<open>return -1\<close>.\<close>

definition strategy3 :: "byte list \<Rightarrow> byte list \<Rightarrow> int" where
  "strategy3 rpx_data rom_data =
     (let search_bytes = py_slice_to rom_data 1024;
          offset = bytes_find rpx_data search_bytes
      in if offset \<noteq> -1 then offset else -1)"

definition find_rom_in_rpx :: "byte list \<Rightarrow> byte list \<Rightarrow> console \<Rightarrow> int" where
  "find_rom_in_rpx rpx_data rom_data system =
     (case strategy1 rpx_data rom_data system of
        Some candidate \<Rightarrow> candidate
      | None \<Rightarrow>
          (case strategy2 rpx_data rom_data system of
             Some offset \<Rightarrow> offset
           | None \<Rightarrow> strategy3 rpx_data rom_data))"

text \<open>\<open>get_original_rom_size\<close> (lines 200-223); \<open>size_map\<close> is its dictionary.\<close>

definition size_map :: "byte \<rightharpoonup> int" where
  "size_map =
     [0x40 \<mapsto> 4 * 1024 * 1024,
      0x20 \<mapsto> 2 * 1024 * 1024,
      0x10 \<mapsto> 1 * 1024 * 1024,
      0x08 \<mapsto> 512 * 1024,
      0x04 \<mapsto> 256 * 1024,
      0x02 \<mapsto> 128 * 1024,
      0x01 \<mapsto> 64 * 1024,
      0x00 \<mapsto> 32 * 1024]"

definition get_original_rom_size :: "byte list \<Rightarrow> int \<Rightarrow> py_error + int option" where
  "get_original_rom_size rpx_data wup_offset =
     (if wup_offset = -1 \<or> wup_offset + 0x10 \<ge> int (length rpx_data) then Inr None
      else
        (case py_index rpx_data (wup_offset + 0x0E) of
           Inl e \<Rightarrow> Inl e
         | Inr size_byte \<Rightarrow> Inr (size_map size_byte)))"

section \<open>Splicer\<close>

text \<open>
  \<open>inject_rom\<close> (lines 226-258). The two \<open>return None\<close> exits are told apart by the
  error they log; \<open>Raised e\<close> is an exception that leaves the function. The loop that
  rounds the ROM size up (lines 235-237) is a partial function: \<open>None\<close> stands for a loop
  that never ends. The padding (line 247) is built before the bounds check (line 250), and
  building it raises when \<open>original_size - rom_size\<close> is more than the interpreter or the
  machine (\<open>mem\<close>) allows. The other buffers the function builds are no longer than
  buffers that exist already, put together; building them is taken to succeed.
\<close>

datatype inject_error = PayloadTooLarge | OffsetOutOfBounds | Raised py_error

partial_function (option) pow2_loop :: "int \<Rightarrow> int \<Rightarrow> int option" where
  "pow2_loop original_size rom_size =
     (if original_size < rom_size then pow2_loop (original_size * 2) rom_size
      else Some original_size)"

definition inject_rom ::
    "nat \<Rightarrow> byte list \<Rightarrow> byte list \<Rightarrow> int \<Rightarrow> int option
      \<Rightarrow> (inject_error + byte list) option" where
  "inject_rom mem rpx_data rom_data offset original_size =
     (let rom_size = int (length rom_data) in
      case (case original_size of None \<Rightarrow> pow2_loop 1 rom_size | Some s \<Rightarrow> Some s) of
        None \<Rightarrow> None
      | Some original_size \<Rightarrow>
          Some
            (if rom_size > original_size then Inl PayloadTooLarge
             else
               case (if rom_size < original_size
                     then (case py_list_repeat mem 0xFF (original_size - rom_size) of
                             Inl e \<Rightarrow> Inl (Raised e)
                           | Inr padding \<Rightarrow> Inr (rom_data @ padding))
                     else Inr rom_data) of
                 Inl e \<Rightarrow> Inl e
               | Inr rom_data \<Rightarrow>
                   if offset + original_size > int (length rpx_data) then Inl OffsetOutOfBounds
                   else Inr (py_slice_to rpx_data offset @ rom_data
                             @ py_slice_from rpx_data (offset + original_size))))"

text \<open>
  The objects \<open>inject_rom\<close> works on. Python names refer to \<open>bytearray\<close> objects, and
  the checksum repair later writes into the object that \<open>inject_rom\<close> returned. To state
  which objects \<open>inject_rom\<close> touches, \<open>inject_rom_store\<close> is the same function over an
  explicit store: a map from references to buffers with a counter for the next free
  reference. \<open>a + b\<close> and slicing build new objects; only the objects that stay bound to a
  name (the padded ROM, the result) are allocated in the model. \<open>deref\<close> reads a
  reference; a Python name never dangles, and the empty buffer stands for that case.
\<close>

record store =
  objs :: "nat \<rightharpoonup> byte list"
  next_ref :: nat

definition deref :: "store \<Rightarrow> nat \<Rightarrow> byte list" where
  "deref st r = (case objs st r of Some v \<Rightarrow> v | None \<Rightarrow> [])"

definition new_obj :: "byte list \<Rightarrow> store \<Rightarrow> nat \<times> store" where
  "new_obj v st =
     (next_ref st, st\<lparr>objs := (objs st)(next_ref st \<mapsto> v), next_ref := Suc (next_ref st)\<rparr>)"

definition store_ok :: "store \<Rightarrow> bool" where
  "store_ok st = (\<forall>r. next_ref st \<le> r \<longrightarrow> objs st r = None)"

definition inject_rom_store ::
    "nat \<Rightarrow> store \<Rightarrow> nat \<Rightarrow> nat \<Rightarrow> int \<Rightarrow> int option
      \<Rightarrow> ((inject_error + nat) \<times> store) option" where
  "inject_rom_store mem st rpx_data rom_data offset original_size =
     (let rom_size = int (length (deref st rom_data)) in
      case (case original_size of None \<Rightarrow> pow2_loop 1 rom_size | Some s \<Rightarrow> Some s) of
        None \<Rightarrow> None
      | Some original_size \<Rightarrow>
          Some
            (if rom_size > original_size then (Inl PayloadTooLarge, st)
             else
               case (if rom_size < original_size
                     then (case py_list_repeat mem 0xFF (original_size - rom_size) of
                             Inl e \<Rightarrow> Inl (Raised e)
                           | Inr padding \<Rightarrow> Inr (new_obj (deref st rom_data @ padding) st))
                     else Inr (rom_data, st)) of
                 Inl e \<Rightarrow> (Inl e, st)
               | Inr (rom_data, st) \<Rightarrow>
                   if offset + original_size > int (length (deref st rpx_data))
                   then (Inl OffsetOutOfBounds, st)
                   else
                     let (result, st) =
                           new_obj (py_slice_to (deref st rpx_data) offset @ deref st rom_data
                                    @ py_slice_from (deref st rpx_data) (offset + original_size)) st
                     in (Inr result, st)))"

section \<open>Facts about the primitives\<close>

lemma and_ffff_nat: "(x::nat) AND 0xFFFF = x mod 65536"
proof -
  have "x AND mask 16 = take_bit 16 x"
    by (simp add: take_bit_eq_mask)
  then show ?thesis
    by (simp add: take_bit_eq_mod mask_eq_exp_minus_1)
qed

lemma xor_mask_take_bit_int: "take_bit 16 (k::int) XOR mask 16 = take_bit 16 (NOT k)"
  by (auto simp: bit_eq_iff bit_simps)

lemma xor_ffff_int:
  assumes "0 \<le> k" "k < 65536"
  shows "(k::int) XOR 65535 = 65535 - k"
proof -
  from assms have tk: "take_bit 16 k = k"
    by (simp add: take_bit_int_eq_self)
  have "k XOR mask 16 = take_bit 16 k XOR mask 16"
    by (simp only: tk)
  also have "\<dots> = take_bit 16 (NOT k)"
    by (rule xor_mask_take_bit_int)
  also have "\<dots> = mask 16 - take_bit 16 k"
    by (rule take_bit_not_eq_mask_diff)
  finally show ?thesis
    using tk by (simp add: mask_eq_exp_minus_1)
qed

lemma xor_ffff_nat:
  assumes "(c::nat) < 65536"
  shows "c XOR 0xFFFF = 65535 - c"
proof -
  have "int (c XOR 65535) = int c XOR 65535"
    by (simp add: of_nat_xor_eq)
  also have "\<dots> = 65535 - int c"
    using assms by (intro xor_ffff_int) simp_all
  finally have "int (c XOR 65535) = int (65535 - c)"
    using assms by simp
  then show ?thesis
    by simp
qed

lemma pack_into_H_ok:
  assumes "0 \<le> off" "off + 2 \<le> int (length data)" "v \<le> 65535"
  shows "pack_into_H data off v =
           Inr (data[nat off := of_nat (v mod 256), nat off + 1 := of_nat (v div 256)])"
  using assms by (simp add: pack_into_H_def Let_def)

lemma unpack_pack:
  assumes "v \<le> 65535"
  shows "unpack_H (of_nat (v mod 256)) (of_nat (v div 256)) = v"
proof -
  from assms have "v div 256 < 256"
    by simp
  then show ?thesis
    by (simp add: unpack_H_def unat_of_nat)
qed

lemma header_readback:
  assumes "hp + 32 \<le> length data"
  shows "header_checksum (data[hp + 28 := a, hp + 29 := b, hp + 30 := c, hp + 31 := d]) hp = unpack_H c d"
    and "header_complement (data[hp + 28 := a, hp + 29 := b, hp + 30 := c, hp + 31 := d]) hp = unpack_H a b"
  using assms
  by (simp_all add: header_checksum_def header_complement_def SNES_CHECKSUM_OFFSET_def
      SNES_CHECKSUM_COMP_OFFSET_def)

lemma pow2_loop_total:
  "0 < s \<Longrightarrow> \<exists>k. pow2_loop s n = Some (s * 2 ^ k) \<and> n \<le> s * 2 ^ k \<and> (0 < k \<longrightarrow> s * 2 ^ (k - 1) < n)"
proof (induction "nat (n - s)" arbitrary: s rule: less_induct)
  case less
  show ?case
  proof (cases "s < n")
    case False
    then have "pow2_loop s n = Some (s * 2 ^ 0)"
      by (subst pow2_loop.simps) simp
    with False show ?thesis
      by (intro exI [of _ 0]) simp
  next
    case True
    with less.prems have "nat (n - s * 2) < nat (n - s)"
      by linarith
    moreover have "0 < s * 2"
      using less.prems by simp
    ultimately obtain k where k: "pow2_loop (s * 2) n = Some (s * 2 * 2 ^ k)" "n \<le> s * 2 * 2 ^ k"
      "0 < k \<longrightarrow> s * 2 * 2 ^ (k - 1) < n"
      using less.hyps [of "s * 2"] by blast
    have "pow2_loop s n = pow2_loop (s * 2) n"
      using True by (subst pow2_loop.simps) simp
    with k have "pow2_loop s n = Some (s * 2 ^ Suc k)"
      by simp
    moreover have "n \<le> s * 2 ^ Suc k"
      using k by simp
    moreover have "s * 2 ^ (Suc k - 1) < n"
    proof (cases k)
      case 0
      then show ?thesis
        using True by simp
    next
      case (Suc j)
      then show ?thesis
        using k by simp
    qed
    ultimately show ?thesis
      by (intro exI [of _ "Suc k"]) simp
  qed
qed

lemma inject_rom_splice_nonneg:
  assumes "0 \<le> offset" "int (length rom) \<le> s" "offset + s \<le> int (length rpx)"
    and "s - int (length rom) \<le> PY_SSIZE_T_MAX" "s - int (length rom) \<le> int mem"
  shows "inject_rom mem rpx rom offset (Some s) =
           Some (Inr (take (nat offset) rpx @ (rom @ replicate (nat s - length rom) 0xFF)
                      @ drop (nat offset + nat s) rpx))"
  using assms
  by (auto simp add: inject_rom_def py_list_repeat_def py_slice_to_def py_slice_from_def
      py_clamp_def Let_def nat_diff_distrib nat_add_distrib min_def)

lemma inject_rom_splice_length:
  assumes "0 \<le> offset" "int (length rom) \<le> s" "offset + s \<le> int (length rpx)"
  shows "length (take (nat offset) rpx @ (rom @ replicate (nat s - length rom) 0xFF)
                 @ drop (nat offset + nat s) rpx) = length rpx"
  using assms by (simp add: min_def) linarith

section \<open>Wrapper-header stripping\<close>

lemma mod_1024_after_strip:
  assumes "(n::nat) mod 1024 = 512"
  shows "(n - 512) mod 1024 = 0"
proof -
  have "n = 1024 * (n div 1024) + n mod 1024"
    by simp
  with assms have "n - 512 = 1024 * (n div 1024)"
    by linarith
  then show ?thesis
    by simp
qed

text \<open>
  Claim C7. Stripping the wrapper header is idempotent: stripping a buffer twice gives the
  same buffer as stripping it once. The header (the first 512 bytes) is dropped exactly
  when the length is 512 modulo 1024, the input is returned unchanged otherwise, and the
  length of a stripped buffer is never 512 modulo 1024.
\<close>

theorem strip_smc_header_idempotent:
  "strip_smc_header (strip_smc_header x) = strip_smc_header x
   \<and> strip_smc_header x = (if length x mod 1024 = 512 then drop 512 x else x)
   \<and> length (strip_smc_header x) mod 1024 \<noteq> 512"
proof -
  have len: "length (strip_smc_header x) mod 1024 \<noteq> 512"
  proof (cases "length x mod 1024 = 512")
    case True
    then show ?thesis
      using mod_1024_after_strip [of "length x"] by (simp add: strip_smc_header_def)
  next
    case False
    then show ?thesis
      by (simp add: strip_smc_header_def)
  qed
  have "strip_smc_header (strip_smc_header x) = strip_smc_header x"
    using len by (simp add: strip_smc_header_def [of "strip_smc_header x"])
  moreover have "strip_smc_header x = (if length x mod 1024 = 512 then drop 512 x else x)"
    by (simp add: strip_smc_header_def)
  ultimately show ?thesis
    using len by blast
qed

section \<open>Searching a buffer\<close>

lemma occurs_at_0: "occurs_at xs sub 0 = prefix sub xs"
proof
  assume "occurs_at xs sub 0"
  then have "take (length sub) xs = sub" by (simp add: occurs_at_def)
  then show "prefix sub xs" by (metis take_is_prefix)
next
  assume "prefix sub xs"
  then obtain zs where "xs = sub @ zs" by (auto simp: prefix_def)
  then show "occurs_at xs sub 0" by (simp add: occurs_at_def)
qed

lemma occurs_at_Suc: "occurs_at (x # xs) sub (Suc j) = occurs_at xs sub j"
  by (simp add: occurs_at_def)

lemma bytes_find_from_least:
  "occurs_at xs sub j \<Longrightarrow> (\<forall>k<j. \<not> occurs_at xs sub k) \<Longrightarrow> bytes_find_from xs sub i = i + int j"
proof (induction xs arbitrary: i j)
  case Nil
  then show ?case by (simp add: occurs_at_def)
next
  case (Cons x xs)
  show ?case
  proof (cases "prefix sub (x # xs)")
    case True
    then have "occurs_at (x # xs) sub 0" by (simp add: occurs_at_0)
    with Cons.prems(2) have "j = 0" by (cases j) auto
    with True show ?thesis by simp
  next
    case False
    then have "\<not> occurs_at (x # xs) sub 0" by (simp add: occurs_at_0)
    with Cons.prems(1) obtain j' where j: "j = Suc j'" by (cases j) auto
    with Cons.prems(1) have o: "occurs_at xs sub j'" by (simp add: occurs_at_Suc)
    have "\<forall>k<j'. \<not> occurs_at xs sub k"
    proof (intro allI impI)
      fix k assume "k < j'"
      then have "Suc k < j" using j by simp
      with Cons.prems(2) have "\<not> occurs_at (x # xs) sub (Suc k)" by blast
      then show "\<not> occurs_at xs sub k" by (simp add: occurs_at_Suc)
    qed
    with o have "bytes_find_from xs sub (i + 1) = i + 1 + int j'" by (rule Cons.IH)
    with False j show ?thesis by simp
  qed
qed

lemma bytes_find_from_none:
  "(\<forall>j. \<not> occurs_at xs sub j) \<Longrightarrow> bytes_find_from xs sub i = - 1"
proof (induction xs arbitrary: i)
  case Nil
  from Nil have "\<not> occurs_at [] sub 0" by blast
  then have "sub \<noteq> []" by (simp add: occurs_at_def)
  then show ?case by simp
next
  case (Cons x xs)
  from Cons.prems have "\<not> occurs_at (x # xs) sub 0" by blast
  then have np: "\<not> prefix sub (x # xs)" by (simp add: occurs_at_0)
  have "\<forall>j. \<not> occurs_at xs sub j"
  proof
    fix j
    from Cons.prems have "\<not> occurs_at (x # xs) sub (Suc j)" by blast
    then show "\<not> occurs_at xs sub j" by (simp add: occurs_at_Suc)
  qed
  then have "bytes_find_from xs sub (i + 1) = - 1" by (rule Cons.IH)
  with np show ?case by simp
qed

lemma least_unique:
  fixes j m :: nat
  assumes "P j" "\<forall>k<j. \<not> P k" "P m" "\<forall>k<m. \<not> P k"
  shows "j = m"
proof (rule ccontr)
  assume "j \<noteq> m"
  then consider "j < m" | "m < j" by linarith
  then show False
  proof cases
    case 1
    with assms(1,4) show False by blast
  next
    case 2
    with assms(3,2) show False by blast
  qed
qed

lemma bytes_find_found:
  assumes "\<exists>j. occurs_at xs sub j"
  shows "\<exists>m. bytes_find xs sub = int m \<and> occurs_at xs sub m \<and> (\<forall>k<m. \<not> occurs_at xs sub k)"
proof -
  define m where "m = (LEAST j. occurs_at xs sub j)"
  from assms have m1: "occurs_at xs sub m" unfolding m_def by (rule LeastI_ex)
  have m2: "\<forall>k<m. \<not> occurs_at xs sub k"
  proof (intro allI impI)
    fix k assume "k < m"
    then show "\<not> occurs_at xs sub k" unfolding m_def by (rule not_less_Least)
  qed
  from m1 m2 have "bytes_find_from xs sub 0 = 0 + int m" by (rule bytes_find_from_least)
  then have "bytes_find xs sub = int m" by (simp add: bytes_find_def)
  with m1 m2 show ?thesis by blast
qed

lemma bytes_find_none_iff: "(bytes_find xs sub = - 1) = (\<forall>j. \<not> occurs_at xs sub j)"
proof
  assume a: "bytes_find xs sub = - 1"
  show "\<forall>j. \<not> occurs_at xs sub j"
  proof (rule ccontr)
    assume "\<not> (\<forall>j. \<not> occurs_at xs sub j)"
    then have "\<exists>j. occurs_at xs sub j" by blast
    then obtain m where "bytes_find xs sub = int m" using bytes_find_found by blast
    with a show False by simp
  qed
next
  assume "\<forall>j. \<not> occurs_at xs sub j"
  then show "bytes_find xs sub = - 1" by (simp add: bytes_find_def bytes_find_from_none)
qed

lemma bytes_find_index_iff:
  "(bytes_find xs sub = int j) = (occurs_at xs sub j \<and> (\<forall>k<j. \<not> occurs_at xs sub k))"
proof
  assume a: "bytes_find xs sub = int j"
  then have "bytes_find xs sub \<noteq> - 1" by simp
  then have "\<exists>j. occurs_at xs sub j" by (simp add: bytes_find_none_iff)
  then obtain m where m: "bytes_find xs sub = int m" "occurs_at xs sub m"
    "\<forall>k<m. \<not> occurs_at xs sub k" using bytes_find_found by blast
  from a m(1) have "j = m" by simp
  with m show "occurs_at xs sub j \<and> (\<forall>k<j. \<not> occurs_at xs sub k)" by simp
next
  assume b: "occurs_at xs sub j \<and> (\<forall>k<j. \<not> occurs_at xs sub k)"
  then have "bytes_find_from xs sub 0 = 0 + int j" by (intro bytes_find_from_least) simp_all
  then show "bytes_find xs sub = int j" by (simp add: bytes_find_def)
qed

lemma bytes_find_range: "bytes_find xs sub = - 1 \<or> (\<exists>j. bytes_find xs sub = int j)"
proof (cases "\<exists>j. occurs_at xs sub j")
  case True
  then show ?thesis using bytes_find_found by blast
next
  case False
  then show ?thesis by (simp add: bytes_find_none_iff)
qed

lemma find_wup_header_range: "- 1 \<le> find_wup_header rpx"
  using bytes_find_range [of rpx WUP_SIGNATURE] by (auto simp add: find_wup_header_def)

section \<open>Classifying the ROM layout\<close>

lemma validate_snes_header_length:
  "validate_snes_header data offset \<Longrightarrow> offset + 0x20 \<le> length data"
  by (auto simp add: validate_snes_header_def split: if_splits)

text \<open>
  Claim C5, as the specification states it: \<open>detect_snes_rom_type\<close> answers LoROM
  whenever \<open>validate_snes_header rom 0x7FC0\<close> holds. It fails on a buffer of exactly
  0x7FE0 zero bytes: the header at 0x7FC0 validates (its title is 21 NUL bytes), but
  \<open>detect_snes_rom_type\<close> asks for a length strictly greater than 0x7FC0 + 0x20 and
  answers \<open>None\<close>.
\<close>

theorem detect_snes_rom_type_boundary:
  "validate_snes_header (replicate 0x7FE0 0) 0x7FC0
   \<and> detect_snes_rom_type (replicate 0x7FE0 0) = None"
  by (simp add: detect_snes_rom_type_def SNES_LOROM_HEADER_def SNES_HIROM_HEADER_def
      validate_snes_header_def header_checksum_def header_complement_def unpack_H_def
      SNES_CHECKSUM_OFFSET_def SNES_CHECKSUM_COMP_OFFSET_def SNES_TITLE_OFFSET_def and_ffff_nat)

text \<open>
  Claim C5, amended. \<open>detect_snes_rom_type\<close> answers LoROM whenever the header at 0x7FC0
  validates and the buffer is not exactly 0x7FE0 bytes long; otherwise HiROM whenever the
  header at 0xFFC0 validates and the buffer is not exactly 0xFFE0 bytes long; otherwise
  \<open>None\<close> (Unknown). The two lengths are the only ones at which the guards of
  \<open>detect_snes_rom_type\<close> and the bound check of \<open>validate_snes_header\<close> differ.
\<close>

theorem detect_snes_rom_type_cases:
  "detect_snes_rom_type rom =
     (if validate_snes_header rom 0x7FC0 \<and> length rom \<noteq> 0x7FE0 then Some LoROM
      else if validate_snes_header rom 0xFFC0 \<and> length rom \<noteq> 0xFFE0 then Some HiROM
      else None)"
proof -
  have lo: "(length rom > 0x7FC0 + 0x20 \<and> validate_snes_header rom 0x7FC0)
              = (validate_snes_header rom 0x7FC0 \<and> length rom \<noteq> 0x7FE0)"
    using validate_snes_header_length [of rom "0x7FC0"] by auto
  have hi: "(length rom > 0xFFC0 + 0x20 \<and> validate_snes_header rom 0xFFC0)
              = (validate_snes_header rom 0xFFC0 \<and> length rom \<noteq> 0xFFE0)"
    using validate_snes_header_length [of rom "0xFFC0"] by auto
  show ?thesis
    unfolding detect_snes_rom_type_def SNES_LOROM_HEADER_def SNES_HIROM_HEADER_def lo hi ..
qed

theorem detect_snes_rom_type_cases_witness:
  "detect_snes_rom_type (replicate 0x8000 0) = Some LoROM"
proof -
  have "validate_snes_header (replicate 0x8000 0) 0x7FC0"
    by (simp add: validate_snes_header_def header_checksum_def header_complement_def unpack_H_def
      SNES_CHECKSUM_OFFSET_def SNES_CHECKSUM_COMP_OFFSET_def SNES_TITLE_OFFSET_def and_ffff_nat)
  then show ?thesis
    using detect_snes_rom_type_cases [of "replicate 0x8000 0"] by simp
qed

section \<open>Locating the ROM for the NES\<close>

lemma probe_deltas_nes: "probe_deltas rpx rom NES w ds = None"
  by (induction ds) simp_all

lemma py_slice_to_nonneg: "0 \<le> n \<Longrightarrow> py_slice_to xs n = take (nat n) xs"
  by (simp add: py_slice_to_def py_clamp_def min_def)

text \<open>
  Claim C10. For the NES, neither the signature-anchored probe (strategy 1) nor the
  structural scan (strategy 2) returns an offset, so \<open>find_rom_in_rpx\<close> is the content
  match: it returns -1 (not found) exactly when the first 1024 bytes of the ROM occur
  nowhere in the container, and otherwise the lowest index at which they occur.
\<close>

theorem find_rom_in_rpx_nes:
  "strategy1 rpx rom NES = None \<and> strategy2 rpx rom NES = None
   \<and> find_rom_in_rpx rpx rom NES = bytes_find rpx (take 1024 rom)
   \<and> (find_rom_in_rpx rpx rom NES = - 1 \<or> (\<exists>j. find_rom_in_rpx rpx rom NES = int j))
   \<and> (find_rom_in_rpx rpx rom NES = - 1 \<longleftrightarrow> (\<forall>j. \<not> occurs_at rpx (take 1024 rom) j))
   \<and> (\<forall>j. find_rom_in_rpx rpx rom NES = int j \<longleftrightarrow>
          occurs_at rpx (take 1024 rom) j \<and> (\<forall>k<j. \<not> occurs_at rpx (take 1024 rom) k))"
proof -
  have s1: "strategy1 rpx rom NES = None"
    by (simp add: strategy1_def Let_def probe_deltas_nes)
  have s2: "strategy2 rpx rom NES = None"
    by (simp add: strategy2_def)
  have s3: "strategy3 rpx rom = bytes_find rpx (take 1024 rom)"
    by (simp add: strategy3_def Let_def py_slice_to_nonneg)
  have f: "find_rom_in_rpx rpx rom NES = bytes_find rpx (take 1024 rom)"
    by (simp add: find_rom_in_rpx_def s1 s2 s3)
  show ?thesis
    unfolding f using s1 s2 bytes_find_range [of rpx "take 1024 rom"]
      bytes_find_none_iff [of rpx "take 1024 rom"] bytes_find_index_iff [of rpx "take 1024 rom"]
    by simp
qed

theorem find_rom_in_rpx_nes_witness:
  "find_rom_in_rpx [1, 2, 3, 4, 5] [3, 4] NES = 2
   \<and> find_rom_in_rpx [1, 2, 3, 4, 5] [4, 3] NES = - 1"
proof -
  have a: "occurs_at [1, 2, 3, 4, 5] (take 1024 [3, 4]) 2" by (simp add: occurs_at_def)
  have b: "\<forall>k<2. \<not> occurs_at [1, 2, 3, 4, 5] (take 1024 [3, 4]) k"
    by (simp add: occurs_at_def less_2_cases_iff)
  have c: "\<forall>j. \<not> occurs_at [1, 2, 3, 4, 5] (take 1024 [4, 3]) j"
  proof
    fix j
    show "\<not> occurs_at [1, 2, 3, 4, 5] (take 1024 [4, 3]) j"
    proof
      assume o: "occurs_at [1, 2, 3, 4, 5] (take 1024 [4, 3]) j"
      then have "j \<le> 3" by (simp add: occurs_at_def)
      then consider "j = 0" | "j = 1" | "j = 2" | "j = 3" by linarith
      then show False using o by cases (simp_all add: occurs_at_def)
    qed
  qed
  have "find_rom_in_rpx [1, 2, 3, 4, 5] [3, 4] NES = int 2"
    using find_rom_in_rpx_nes [of "[1, 2, 3, 4, 5]" "[3, 4]"] a b by blast
  moreover have "find_rom_in_rpx [1, 2, 3, 4, 5] [4, 3] NES = - 1"
    using find_rom_in_rpx_nes [of "[1, 2, 3, 4, 5]" "[4, 3]"] c by blast
  ultimately show ?thesis by simp
qed

section \<open>Splicing\<close>




text \<open>
  Claim C1 says that every input that passes both checks of \<open>inject_rom\<close> yields the
  container with the padded ROM substituted at \<open>offset\<close>, of the container's length.
  For an offset that is not negative (and a padding that can be built) this is
  \<open>inject_rom_splice_nonneg\<close> with \<open>inject_rom_splice_length\<close>. But \<open>inject_rom\<close> has
  no check for a negative offset, and a Python slice bound below zero counts from the end of
  the buffer: with a 4-byte container, a 2-byte ROM, original size 2 and offset -1 both
  checks pass and the result has 8 bytes, whatever the machine.
\<close>

theorem inject_rom_negative_offset:
  "int (length [9, 9 :: byte]) \<le> 2 \<and> - 1 + 2 \<le> int (length [1, 2, 3, 4 :: byte])
   \<and> inject_rom mem [1, 2, 3, 4] [9, 9] (- 1) (Some 2) = Some (Inr [1, 2, 3, 9, 9, 2, 3, 4])"
  by (simp add: inject_rom_def py_slice_to_def py_slice_from_def py_clamp_def)

section \<open>Checksum repair\<close>

lemma checksum_algebra:
  assumes "c < (65536::nat)"
  shows "(c + (c XOR 0xFFFF)) AND 0xFFFF = 0xFFFF" and "c XOR 0xFFFF \<le> 65535"
  using assms by (simp_all add: xor_ffff_nat and_ffff_nat)

text \<open>
  Claim C2. Whenever the 32-byte header window at the layout's header position
  (\<open>offset + 0x7FC0\<close> for LoROM, \<open>offset + 0xFFC0\<close> for HiROM) lies within the
  buffer, \<open>update_snes_header_checksum\<close> raises nothing, keeps the length of the buffer,
  and \<open>validate_snes_header\<close> holds of the repaired buffer at that position through the
  checksum branch: the two 16-bit fields read back from the header add up to 0xFFFF modulo
  65536, the complement being the checksum XOR 0xFFFF, and the checksum being the byte sum
  from \<open>offset\<close> to the end of the buffer modulo 65536.
\<close>

theorem update_snes_header_checksum_validates:
  assumes "0 \<le> header_position offset rt"
    and "header_position offset rt + 0x20 \<le> int (length data)"
  shows "\<exists>data'. update_snes_header_checksum data offset rt = Inr data'
          \<and> length data' = length data
          \<and> validate_snes_header data' (nat (header_position offset rt))
          \<and> (header_checksum data' (nat (header_position offset rt))
               + header_complement data' (nat (header_position offset rt))) AND 0xFFFF = 0xFFFF
          \<and> (header_checksum data' (nat (header_position offset rt))
               + header_complement data' (nat (header_position offset rt))) mod 65536 = 0xFFFF
          \<and> header_complement data' (nat (header_position offset rt))
               = header_checksum data' (nat (header_position offset rt)) XOR 0xFFFF
          \<and> header_checksum data' (nat (header_position offset rt))
               = sum_list (map unat (py_slice_from data offset)) mod 65536"
proof -
  define h where "h = nat (header_position offset rt)"
  define checksum where "checksum = sum_list (map unat (py_slice_from data offset)) AND 0xFFFF"
  define complement where "complement = checksum XOR 0xFFFF"
  define data1 where
    "data1 = data[h + 28 := of_nat (complement mod 256), h + 29 := of_nat (complement div 256)]"
  define data2 where
    "data2 = data1[h + 30 := of_nat (checksum mod 256), h + 31 := of_nat (checksum div 256)]"
  have hp: "header_position offset rt = int h"
    using assms(1) by (simp add: h_def)
  have hlen: "h + 32 \<le> length data"
    using assms(2) hp by simp
  have c: "checksum < 65536"
    by (simp add: checksum_def and_ffff_nat)
  have cc: "complement \<le> 65535"
    unfolding complement_def using c by (rule checksum_algebra(2))
  have p1: "pack_into_H data (int h + int SNES_CHECKSUM_COMP_OFFSET) complement = Inr data1"
    using pack_into_H_ok [of "int h + 28" data complement] hlen cc
    by (simp add: SNES_CHECKSUM_COMP_OFFSET_def data1_def nat_add_distrib add.commute)
  have p2: "pack_into_H data1 (int h + int SNES_CHECKSUM_OFFSET) checksum = Inr data2"
    using pack_into_H_ok [of "int h + 30" data1 checksum] hlen c
    by (simp add: SNES_CHECKSUM_OFFSET_def data1_def data2_def nat_add_distrib add.commute)
  have u: "update_snes_header_checksum data offset rt = Inr data2"
    unfolding update_snes_header_checksum_def Let_def hp
      checksum_def [symmetric] complement_def [symmetric]
    by (simp add: p1 p2)
  have len: "length data2 = length data"
    by (simp add: data2_def data1_def)
  have r1: "header_checksum data2 h = checksum"
    using header_readback(1) [OF hlen] unpack_pack [of checksum] c
    by (simp add: data2_def data1_def)
  have r2: "header_complement data2 h = complement"
    using header_readback(2) [OF hlen] unpack_pack [OF cc]
    by (simp add: data2_def data1_def)
  have a: "(checksum + complement) AND 0xFFFF = 0xFFFF"
    unfolding complement_def using c by (rule checksum_algebra(1))
  have v: "validate_snes_header data2 h"
    using hlen a by (simp add: validate_snes_header_def len r1 r2)
  have m: "(checksum + complement) mod 65536 = 0xFFFF"
    using a by (simp add: and_ffff_nat)
  have s: "checksum = sum_list (map unat (py_slice_from data offset)) mod 65536"
    by (simp add: checksum_def and_ffff_nat)
  show ?thesis
    unfolding h_def [symmetric]
    using u len v a m s r1 r2 complement_def by (intro exI [of _ data2]) simp
qed

theorem update_snes_header_checksum_validates_witness:
  "\<exists>data'. update_snes_header_checksum (replicate 0x8000 0) 0 LoROM = Inr data'
      \<and> validate_snes_header data' 0x7FC0
      \<and> header_checksum data' 0x7FC0 = 0
      \<and> header_complement data' 0x7FC0 = 0xFFFF"
proof -
  have hp: "header_position 0 LoROM = 0x7FC0"
    by (simp add: header_position_def SNES_LOROM_HEADER_def)
  have "0 \<le> header_position 0 LoROM"
    and "header_position 0 LoROM + 0x20 \<le> int (length (replicate 0x8000 (0::byte)))"
    by (simp_all add: hp)
  from update_snes_header_checksum_validates [OF this]
  obtain data' where d: "update_snes_header_checksum (replicate 0x8000 0) 0 LoROM = Inr data'"
    "validate_snes_header data' (nat (header_position 0 LoROM))"
    "header_complement data' (nat (header_position 0 LoROM))
       = header_checksum data' (nat (header_position 0 LoROM)) XOR 0xFFFF"
    "header_checksum data' (nat (header_position 0 LoROM))
       = sum_list (map unat (py_slice_from (replicate 0x8000 (0::byte)) 0)) mod 65536"
    by blast
  have z: "sum_list (map unat (py_slice_from (replicate 0x8000 (0::byte)) 0)) = 0"
    by (simp add: py_slice_from_def py_clamp_def sum_list_replicate)
  from d(4) have c0: "header_checksum data' 0x7FC0 = 0"
    by (simp add: hp z)
  from d(3) have c1: "header_complement data' 0x7FC0 = 0xFFFF"
    by (simp add: hp c0)
  from d(1) d(2) c0 c1 show ?thesis
    by (simp add: hp)
qed

section \<open>Original ROM size\<close>

lemma size_map_dom: "dom size_map = {0x40, 0x20, 0x10, 0x08, 0x04, 0x02, 0x01, 0x00}"
  by (auto simp add: size_map_def)

lemma size_map_ladder:
  "size_map b = (if b = 0 then Some 32768
                 else if b \<in> {0x01, 0x02, 0x04, 0x08, 0x10, 0x20, 0x40} then Some (65536 * uint b)
                 else None)"
  by (auto simp add: size_map_def)

text \<open>
  Claim C6, as the specification states it: the size is unknown exactly when the marker was
  not found or the byte at \<open>wup_offset + 0x0E\<close> has no entry in the table. It fails on a
  16-byte container that starts with the marker: the marker is found at 0, the byte at 0x0E
  is 0x00, which the table maps to 32 KB, and \<open>get_original_rom_size\<close> still answers
  \<open>None\<close>, because it also gives up when \<open>wup_offset + 0x10\<close> reaches the end of the
  container.
\<close>

theorem get_original_rom_size_short_buffer:
  "find_wup_header (WUP_SIGNATURE @ replicate 12 0) = 0
   \<and> py_index (WUP_SIGNATURE @ replicate 12 0) (0 + 0x0E) = Inr 0
   \<and> size_map 0 = Some 32768
   \<and> get_original_rom_size (WUP_SIGNATURE @ replicate 12 0) 0 = Inr None"
  by (simp add: find_wup_header_def bytes_find_def WUP_SIGNATURE_def py_index_def nth_append
      size_map_def get_original_rom_size_def)

text \<open>
  Claim C6, amended. For a marker offset as \<open>find_wup_header\<close> returns it (-1 or an
  index, \<open>find_wup_header_range\<close>), \<open>get_original_rom_size\<close> raises nothing and answers \<open>None\<close> (unknown) exactly
  when the marker was not found, or \<open>wup_offset + 0x10\<close> is not below the length of the
  container, or the byte at \<open>wup_offset + 0x0E\<close> has no entry in the table; otherwise it
  answers the entry of that byte. The table maps 0x00 to 32 KB and each of 0x01, 0x02,
  0x04, 0x08, 0x10, 0x20, 0x40 to that many times 64 KB; 0x40 gives 4194304.
\<close>

theorem get_original_rom_size_cases:
  assumes "- 1 \<le> wup_offset"
  shows "(get_original_rom_size rpx wup_offset = Inr None \<longleftrightarrow>
            wup_offset = - 1 \<or> wup_offset + 0x10 \<ge> int (length rpx)
            \<or> size_map (rpx ! nat (wup_offset + 0x0E)) = None)
       \<and> (wup_offset \<noteq> - 1 \<and> wup_offset + 0x10 < int (length rpx) \<longrightarrow>
            get_original_rom_size rpx wup_offset = Inr (size_map (rpx ! nat (wup_offset + 0x0E))))
       \<and> (\<forall>b. size_map b =
            (if b = 0 then Some 32768
             else if b \<in> {0x01, 0x02, 0x04, 0x08, 0x10, 0x20, 0x40} then Some (65536 * uint b)
             else None))
       \<and> size_map 0x40 = Some 4194304"
proof -
  have idx: "py_index rpx (wup_offset + 0x0E) = Inr (rpx ! nat (wup_offset + 0x0E))"
    if "wup_offset \<noteq> - 1" "wup_offset + 0x10 < int (length rpx)"
    using that assms by (simp add: py_index_def Let_def)
  have g: "get_original_rom_size rpx wup_offset = Inr (size_map (rpx ! nat (wup_offset + 0x0E)))"
    if "wup_offset \<noteq> - 1" "wup_offset + 0x10 < int (length rpx)"
    using that idx by (simp add: get_original_rom_size_def)
  have n: "get_original_rom_size rpx wup_offset = Inr None"
    if "wup_offset = - 1 \<or> wup_offset + 0x10 \<ge> int (length rpx)"
    using that by (auto simp add: get_original_rom_size_def)
  have first: "(get_original_rom_size rpx wup_offset = Inr None) =
      (wup_offset = - 1 \<or> wup_offset + 0x10 \<ge> int (length rpx)
       \<or> size_map (rpx ! nat (wup_offset + 0x0E)) = None)"
  proof (cases "wup_offset = - 1 \<or> wup_offset + 0x10 \<ge> int (length rpx)")
    case True
    then show ?thesis using n by blast
  next
    case False
    then have "get_original_rom_size rpx wup_offset = Inr (size_map (rpx ! nat (wup_offset + 0x0E)))"
      using g by simp
    with False show ?thesis by simp
  qed
  have last: "size_map 0x40 = Some 4194304"
    by (simp add: size_map_def)
  show ?thesis
    using first g size_map_ladder last by blast
qed

theorem get_original_rom_size_cases_witness:
  "get_original_rom_size (WUP_SIGNATURE @ replicate 10 0 @ [0x40] @ replicate 10 0) 0
     = Inr (Some 4194304)"
proof -
  have "(WUP_SIGNATURE @ replicate 10 0 @ [0x40] @ replicate 10 0) ! nat (0 + 0x0E) = (0x40 :: byte)"
    by (simp add: WUP_SIGNATURE_def nth_append)
  then show ?thesis
    using get_original_rom_size_cases [of 0 "WUP_SIGNATURE @ replicate 10 0 @ [0x40] @ replicate 10 0"]
    by (simp add: WUP_SIGNATURE_def)
qed

section \<open>The default original size\<close>

text \<open>
  Claim C8. Called without an original size, \<open>inject_rom\<close> substitutes the result of its
  doubling loop, which ends and returns the smallest power of two that is at least the
  length of the ROM; the call then behaves as the call with that size. A ROM whose length is
  a power of two is spliced in as it is, with no padding byte.
\<close>

theorem inject_rom_default_size:
  "\<exists>k. pow2_loop 1 (int (length rom)) = Some (2 ^ k)
       \<and> int (length rom) \<le> 2 ^ k
       \<and> (\<forall>j. int (length rom) \<le> 2 ^ j \<longrightarrow> (2::int) ^ k \<le> 2 ^ j)
       \<and> inject_rom mem rpx rom offset None = inject_rom mem rpx rom offset (Some (2 ^ k))
       \<and> (\<forall>m. length rom = 2 ^ m \<longrightarrow> k = m \<and>
             inject_rom mem rpx rom offset None =
               Some (if offset + 2 ^ m > int (length rpx) then Inl OffsetOutOfBounds
                     else Inr (py_slice_to rpx offset @ rom @ py_slice_from rpx (offset + 2 ^ m))))"
proof -
  from pow2_loop_total [of 1 "int (length rom)"] obtain k where
    k: "pow2_loop 1 (int (length rom)) = Some (2 ^ k)" "int (length rom) \<le> 2 ^ k"
      "0 < k \<longrightarrow> 2 ^ (k - 1) < int (length rom)"
    by auto
  have least: "(2::int) ^ k \<le> 2 ^ j" if "int (length rom) \<le> 2 ^ j" for j
  proof (cases k)
    case 0
    then show ?thesis by simp
  next
    case (Suc k')
    with k(3) have "(2::int) ^ k' < int (length rom)" by simp
    with that have "(2::int) ^ k' < 2 ^ j" by linarith
    then have "k' < j" by simp
    then have "k \<le> j" using Suc by simp
    then show ?thesis by (simp add: power_increasing)
  qed
  have same: "inject_rom mem rpx rom offset None = inject_rom mem rpx rom offset (Some (2 ^ k))"
    by (simp add: inject_rom_def k(1))
  have exact: "k = m \<and> inject_rom mem rpx rom offset None =
               Some (if offset + 2 ^ m > int (length rpx) then Inl OffsetOutOfBounds
                     else Inr (py_slice_to rpx offset @ rom @ py_slice_from rpx (offset + 2 ^ m)))"
    if "length rom = 2 ^ m" for m
  proof -
    from that have i: "int (length rom) = 2 ^ m" by simp
    with least [of m] have "(2::int) ^ k \<le> 2 ^ m" by simp
    moreover from k(2) i have "(2::int) ^ m \<le> 2 ^ k" by simp
    ultimately have "(2::int) ^ k = 2 ^ m" by simp
    then have km: "k = m" by simp
    show ?thesis
      unfolding same using km i by (simp add: inject_rom_def)
  qed
  from k(1) k(2) least same exact show ?thesis by blast
qed

theorem inject_rom_default_size_witness:
  "inject_rom 1000 [0, 0, 0, 0, 0, 0, 0, 0] [1, 2, 3, 4] 2 None = Some (Inr [0, 0, 1, 2, 3, 4, 0, 0])"
proof -
  from inject_rom_default_size [where rom = "[1, 2, 3, 4]" and rpx = "[0, 0, 0, 0, 0, 0, 0, 0]"
      and offset = 2 and mem = 1000] obtain k where
    "\<forall>m. length [1, 2, 3, 4 :: byte] = 2 ^ m \<longrightarrow> k = m \<and>
       inject_rom 1000 [0, 0, 0, 0, 0, 0, 0, 0] [1, 2, 3, 4] 2 None =
         Some (if 2 + 2 ^ m > int (length [0, 0, 0, 0, 0, 0, 0, 0 :: byte]) then Inl OffsetOutOfBounds
               else Inr (py_slice_to [0, 0, 0, 0, 0, 0, 0, 0] 2 @ [1, 2, 3, 4]
                         @ py_slice_from [0, 0, 0, 0, 0, 0, 0, 0] (2 + 2 ^ m)))"
    by blast
  then have "length [1, 2, 3, 4 :: byte] = 2 ^ 2 \<longrightarrow> k = 2 \<and>
       inject_rom 1000 [0, 0, 0, 0, 0, 0, 0, 0] [1, 2, 3, 4] 2 None =
         Some (if 2 + 2 ^ 2 > int (length [0, 0, 0, 0, 0, 0, 0, 0 :: byte]) then Inl OffsetOutOfBounds
               else Inr (py_slice_to [0, 0, 0, 0, 0, 0, 0, 0] 2 @ [1, 2, 3, 4]
                         @ py_slice_from [0, 0, 0, 0, 0, 0, 0, 0] (2 + 2 ^ 2)))"
    by (rule spec)
  then show ?thesis
    by (simp add: py_slice_to_def py_slice_from_def py_clamp_def)
qed

section \<open>The container object is not mutated\<close>

lemma new_obj_frame:
  assumes "store_ok st" "new_obj v st = (r, st')"
  shows "objs st r = None" and "deref st' r = v" and "store_ok st'"
    and "\<And>q w. objs st q = Some w \<Longrightarrow> objs st' q = Some w"
    and "\<And>q w. objs st q = Some w \<Longrightarrow> deref st' q = w"
proof -
  from assms(2) have r: "r = next_ref st"
    and st': "st' = st\<lparr>objs := (objs st)(next_ref st \<mapsto> v), next_ref := Suc (next_ref st)\<rparr>"
    by (auto simp add: new_obj_def)
  show "objs st r = None"
    using assms(1) r by (simp add: store_ok_def)
  show "deref st' r = v"
    by (simp add: deref_def st' r)
  show "store_ok st'"
    using assms(1) by (simp add: store_ok_def st')
  show q: "objs st' q = Some w" if "objs st q = Some w" for q w
  proof -
    from that assms(1) have "q \<noteq> next_ref st"
      by (auto simp add: store_ok_def)
    with that show ?thesis
      by (simp add: st')
  qed
  show "deref st' q = w" if "objs st q = Some w" for q w
    using q [OF that] by (simp add: deref_def)
qed

lemma inject_rom_size_total:
  "\<exists>s. (case original_size of None \<Rightarrow> pow2_loop 1 (int (length rom)) | Some s \<Rightarrow> Some s) = Some s"
proof (cases original_size)
  case None
  from pow2_loop_total [of 1 "int (length rom)"] obtain k where
    "pow2_loop 1 (int (length rom)) = Some (2 ^ k)" by auto
  with None show ?thesis by simp
next
  case (Some s)
  then show ?thesis by simp
qed

text \<open>
  Claim C9. \<open>inject_rom\<close> never mutates the container it receives. In a store where
  the container and the ROM are allocated, \<open>inject_rom_store\<close> always returns; every
  object of the store before the call, the container among them, holds the same bytes
  after the call; on a failure (the ROM too large, the window out of bounds, an exception
  raised while padding) the outcome is the failure of \<open>inject_rom\<close> and no buffer, and on
  success the result is a reference that was not allocated before the call (so it is not
  the container) and that holds the buffer \<open>inject_rom\<close> computes.
\<close>

theorem inject_rom_store_frame:
  assumes ok: "store_ok st" and c: "objs st rpx_ref = Some c" and p: "objs st rom_ref = Some p"
  shows "\<exists>res st'. inject_rom_store mem st rpx_ref rom_ref offset original_size = Some (res, st')
      \<and> objs st' rpx_ref = Some c
      \<and> (\<forall>r v. objs st r = Some v \<longrightarrow> objs st' r = Some v)
      \<and> (case res of
            Inl e \<Rightarrow> inject_rom mem c p offset original_size = Some (Inl e)
          | Inr r \<Rightarrow> objs st r = None \<and> r \<noteq> rpx_ref
                     \<and> inject_rom mem c p offset original_size = Some (Inr (deref st' r)))"
proof -
  from inject_rom_size_total [where original_size = original_size and rom = p] obtain s where
    s: "(case original_size of None \<Rightarrow> pow2_loop 1 (int (length p)) | Some s \<Rightarrow> Some s) = Some s"
    by blast
  have dc: "deref st rpx_ref = c" and dp: "deref st rom_ref = p"
    using c p by (simp_all add: deref_def)
  define T where "T st1 padded =
        (if offset + s > int (length c) then (Inl OffsetOutOfBounds, st1)
         else (case new_obj (py_slice_to c offset @ padded @ py_slice_from c (offset + s)) st1 of
                 (result, st2) \<Rightarrow> (Inr result, st2)))" for st1 :: store and padded :: "byte list"
  define P where "P padded =
        (if offset + s > int (length c) then Inl OffsetOutOfBounds
         else Inr (py_slice_to c offset @ padded @ py_slice_from c (offset + s)))"
    for padded :: "byte list"
  have tail: "\<exists>res st'. T st1 padded = (res, st')
      \<and> objs st' rpx_ref = Some c
      \<and> (\<forall>r v. objs st r = Some v \<longrightarrow> objs st' r = Some v)
      \<and> (case res of
            Inl e \<Rightarrow> P padded = Inl e
          | Inr r \<Rightarrow> objs st r = None \<and> r \<noteq> rpx_ref \<and> P padded = Inr (deref st' r))"
    if ok1: "store_ok st1" and fr1: "\<And>q w. objs st q = Some w \<Longrightarrow> objs st1 q = Some w"
    for st1 :: store and padded :: "byte list"
  proof (cases "offset + s > int (length c)")
    case True
    have "objs st1 rpx_ref = Some c"
      using fr1 [OF c] .
    moreover have "\<forall>r v. objs st r = Some v \<longrightarrow> objs st1 r = Some v"
      using fr1 by blast
    ultimately show ?thesis
      using True by (simp add: T_def P_def)
  next
    case False
    define buf where "buf = py_slice_to c offset @ padded @ py_slice_from c (offset + s)"
    obtain res st2 where n: "new_obj buf st1 = (res, st2)"
      by (cases "new_obj buf st1") blast
    have d2: "deref st2 res = buf"
      by (rule new_obj_frame(2) [OF ok1 n])
    have fresh1: "objs st1 res = None"
      by (rule new_obj_frame(1) [OF ok1 n])
    have g3: "objs st res = None"
    proof (cases "objs st res")
      case None
      then show ?thesis .
    next
      case (Some w)
      from fr1 [OF Some] fresh1 show ?thesis
        by simp
    qed
    have g4: "res \<noteq> rpx_ref"
      using g3 c by auto
    have g5: "\<forall>r v. objs st r = Some v \<longrightarrow> objs st2 r = Some v"
    proof (intro allI impI)
      fix r v
      assume "objs st r = Some v"
      then have "objs st1 r = Some v"
        by (rule fr1)
      then show "objs st2 r = Some v"
        by (rule new_obj_frame(4) [OF ok1 n])
    qed
    have g6: "objs st2 rpx_ref = Some c"
      using g5 c by blast
    have t: "T st1 padded = (Inr res, st2)"
      using False n by (simp add: T_def buf_def)
    have q: "P padded = Inr buf"
      using False by (simp add: P_def buf_def)
    from t q g3 g4 g5 g6 d2 show ?thesis
      by simp
  qed
  have finish: ?thesis
    if e1: "inject_rom_store mem st rpx_ref rom_ref offset original_size = Some (T st1 padded)"
      and e2: "inject_rom mem c p offset original_size = Some (P padded)"
      and ok1: "store_ok st1" and fr1: "\<And>q w. objs st q = Some w \<Longrightarrow> objs st1 q = Some w"
    for st1 :: store and padded :: "byte list"
  proof -
    from tail [OF ok1 fr1, of padded] obtain res st' where
      t1: "T st1 padded = (res, st')" and t2: "objs st' rpx_ref = Some c"
      and t3: "\<forall>r v. objs st r = Some v \<longrightarrow> objs st' r = Some v"
      and t4: "case res of
            Inl e \<Rightarrow> P padded = Inl e
          | Inr r \<Rightarrow> objs st r = None \<and> r \<noteq> rpx_ref \<and> P padded = Inr (deref st' r)"
      by blast
    have "inject_rom_store mem st rpx_ref rom_ref offset original_size = Some (res, st')"
      by (simp add: e1 t1)
    moreover have "case res of
            Inl e \<Rightarrow> inject_rom mem c p offset original_size = Some (Inl e)
          | Inr r \<Rightarrow> objs st r = None \<and> r \<noteq> rpx_ref
                     \<and> inject_rom mem c p offset original_size = Some (Inr (deref st' r))"
      using t4 by (cases res) (simp_all add: e2)
    ultimately show ?thesis
      using t2 t3 by blast
  qed
  show ?thesis
  proof (cases "int (length p) > s")
    case True
    then have "inject_rom_store mem st rpx_ref rom_ref offset original_size
                 = Some (Inl PayloadTooLarge, st)"
      by (simp add: inject_rom_store_def dp s)
    moreover from True have "inject_rom mem c p offset original_size = Some (Inl PayloadTooLarge)"
      by (simp add: inject_rom_def s)
    ultimately show ?thesis
      using c by simp
  next
    case fits: False
    show ?thesis
    proof (cases "int (length p) < s")
      case nopad: False
      have e1: "inject_rom_store mem st rpx_ref rom_ref offset original_size = Some (T st p)"
        unfolding inject_rom_store_def Let_def dp s option.case T_def
        using fits nopad by (simp add: dc dp)
      have e2: "inject_rom mem c p offset original_size = Some (P p)"
        unfolding P_def using fits nopad by (simp add: inject_rom_def s)
      have fr0: "\<And>q w. objs st q = Some w \<Longrightarrow> objs st q = Some w"
        by simp
      show ?thesis
        by (rule finish [OF e1 e2 ok fr0])
    next
      case pad: True
      show ?thesis
      proof (cases "py_list_repeat mem 0xFF (s - int (length p)) :: py_error + byte list")
        case (Inl e)
        have "inject_rom_store mem st rpx_ref rom_ref offset original_size
                = Some (Inl (Raised e), st)"
          unfolding inject_rom_store_def Let_def dp s option.case
          using fits pad Inl by simp
        moreover have "inject_rom mem c p offset original_size = Some (Inl (Raised e))"
          using fits pad Inl by (simp add: inject_rom_def s)
        ultimately show ?thesis
          using c by simp
      next
        case (Inr padding)
        obtain rom1 st1 where n1: "new_obj (p @ padding) st = (rom1, st1)"
          by (cases "new_obj (p @ padding) st") blast
        have ok1: "store_ok st1"
          by (rule new_obj_frame(3) [OF ok n1])
        have fr1: "\<And>q w. objs st q = Some w \<Longrightarrow> objs st1 q = Some w"
          by (rule new_obj_frame(4) [OF ok n1])
        have d1: "deref st1 rom1 = p @ padding"
          by (rule new_obj_frame(2) [OF ok n1])
        have dc1: "deref st1 rpx_ref = c"
          by (rule new_obj_frame(5) [OF ok n1 c])
        have e1: "inject_rom_store mem st rpx_ref rom_ref offset original_size
                    = Some (T st1 (p @ padding))"
          unfolding inject_rom_store_def Let_def dp s option.case T_def
          using fits pad Inr by (simp add: n1 d1 dc1)
        have e2: "inject_rom mem c p offset original_size = Some (P (p @ padding))"
          unfolding P_def using fits pad Inr by (simp add: inject_rom_def s)
        show ?thesis
          by (rule finish [OF e1 e2 ok1 fr1])
      qed
    qed
  qed
qed

theorem inject_rom_store_frame_witness:
  "\<exists>r st'. inject_rom_store 1000 \<lparr>objs = [0 \<mapsto> [1, 2, 3, 4], 1 \<mapsto> [9]], next_ref = 2\<rparr> 0 1 1
                (Some 2) = Some (Inr r, st')
      \<and> r \<noteq> 0 \<and> objs st' 0 = Some [1, 2, 3, 4] \<and> deref st' r = [1, 9, 255, 4]"
proof -
  define st0 :: store where "st0 = \<lparr>objs = [0 \<mapsto> [1, 2, 3, 4], 1 \<mapsto> [9]], next_ref = 2\<rparr>"
  have ok: "store_ok st0"
    by (simp add: store_ok_def st0_def)
  have c: "objs st0 0 = Some [1, 2, 3, 4]" and p: "objs st0 1 = Some [9]"
    by (simp_all add: st0_def)
  from inject_rom_store_frame [OF ok c p, where mem = 1000 and offset = 1 and original_size = "Some 2"]
  obtain res st' where
    r: "inject_rom_store 1000 st0 0 1 1 (Some 2) = Some (res, st')" "objs st' 0 = Some [1, 2, 3, 4]"
      "case res of Inl e \<Rightarrow> inject_rom 1000 [1, 2, 3, 4] [9] 1 (Some 2) = Some (Inl e)
        | Inr r \<Rightarrow> objs st0 r = None \<and> r \<noteq> 0
            \<and> inject_rom 1000 [1, 2, 3, 4] [9] 1 (Some 2) = Some (Inr (deref st' r))"
    by blast
  have e: "inject_rom 1000 [1, 2, 3, 4] [9] 1 (Some 2) = Some (Inr [1, 9, 255, 4])"
    by (simp add: inject_rom_def py_list_repeat_def PY_SSIZE_T_MAX_def py_slice_to_def
        py_slice_from_def py_clamp_def)
  from r(3) e obtain r' where "res = Inr r'" "r' \<noteq> 0" "deref st' r' = [1, 9, 255, 4]"
    by (cases res) auto
  with r(1) r(2) show ?thesis
    unfolding st0_def by blast
qed

section \<open>Priority of the signature-anchored probe\<close>

lemma prefix_replicate: "m \<le> n \<Longrightarrow> prefix (replicate m x) (replicate n x)"
proof -
  assume "m \<le> n"
  then have "replicate n x = replicate m x @ replicate (n - m) x"
    by (simp add: replicate_add [symmetric])
  then show ?thesis
    by (metis prefixI)
qed

lemma filter_replicate_if:
  "filter P (replicate n x) = (if P x then replicate n x else [])"
  by (induction n) simp_all

text \<open>
  The window \<open>rpx_data[candidate:candidate + 0x10000]\<close> at a non-negative candidate:
  the (at most) 0x10000 bytes of the container from the candidate on.
\<close>

lemma py_slice_window:
  "py_slice xs (int c) (int c + 0x10000) = take 0x10000 (drop c xs)"
proof (cases "c \<le> length xs")
  case True
  have "nat (int c + 65536) = c + 65536"
    by simp
  then have "py_slice xs (int c) (int c + 0x10000)
      = take (min (c + 65536) (length xs) - c) (drop c xs)"
    using True by (simp add: py_slice_def py_clamp_def Let_def)
  also have "min (c + 65536) (length xs) - c = min 65536 (length (drop c xs))"
    using True by (auto simp add: min_def)
  also have "take (min 65536 (length (drop c xs))) (drop c xs) = take 65536 (drop c xs)"
    by (simp add: min_def)
  finally show ?thesis
    by simp
next
  case False
  have "nat (int c + 65536) = c + 65536"
    by simp
  then show ?thesis
    using False by (simp add: py_slice_def py_clamp_def Let_def)
qed

text \<open>One turn of the loop over the deltas, for the SNES and a marker found at \<open>s\<close>.\<close>

lemma probe_deltas_step:
  "probe_deltas rpx rom SNES (int s) (int e # ds) =
     (if s + e + length rom \<le> length rpx
         \<and> detect_snes_rom_type (take 0x10000 (drop (s + e) rpx)) \<noteq> None
      then Some (int (s + e)) else probe_deltas rpx rom SNES (int s) ds)"
proof -
  have c: "int s + int e = int (s + e)"
    by simp
  have f: "(int (s + e) + int (length rom) \<le> int (length rpx)) = (s + e + length rom \<le> length rpx)"
    by linarith
  show ?thesis
    unfolding probe_deltas.simps Let_def c f py_slice_window by simp
qed

lemma probe_deltas_first:
  assumes "\<forall>e\<in>set pre. \<not> (s + e + length rom \<le> length rpx
            \<and> detect_snes_rom_type (take 0x10000 (drop (s + e) rpx)) \<noteq> None)"
    and "s + d + length rom \<le> length rpx"
    and "detect_snes_rom_type (take 0x10000 (drop (s + d) rpx)) \<noteq> None"
  shows "probe_deltas rpx rom SNES (int s) (map int (pre @ d # post)) = Some (int (s + d))"
  using assms
proof (induction pre)
  case Nil
  then have "s + d + length rom \<le> length rpx
      \<and> detect_snes_rom_type (take 0x10000 (drop (s + d) rpx)) \<noteq> None"
    by simp
  then show ?case
    unfolding append_Nil list.map probe_deltas_step by (rule if_P)
next
  case (Cons e pre)
  from Cons.prems(1) have
    e: "\<not> (s + e + length rom \<le> length rpx
            \<and> detect_snes_rom_type (take 0x10000 (drop (s + e) rpx)) \<noteq> None)"
    and r: "\<forall>e\<in>set pre. \<not> (s + e + length rom \<le> length rpx
            \<and> detect_snes_rom_type (take 0x10000 (drop (s + e) rpx)) \<noteq> None)"
    by simp_all
  have "probe_deltas rpx rom SNES (int s) (int e # map int (pre @ d # post))
      = probe_deltas rpx rom SNES (int s) (map int (pre @ d # post))"
    unfolding probe_deltas_step by (rule if_not_P [OF e])
  also have "\<dots> = Some (int (s + d))"
    using r Cons.prems(2) Cons.prems(3) by (rule Cons.IH)
  finally show ?case
    unfolding append_Cons list.map .
qed

lemma probe_deltas_none:
  assumes "\<forall>e\<in>set ds. \<not> (s + e + length rom \<le> length rpx
            \<and> detect_snes_rom_type (take 0x10000 (drop (s + e) rpx)) \<noteq> None)"
  shows "probe_deltas rpx rom SNES (int s) (map int ds) = None"
  using assms
proof (induction ds)
  case Nil
  then show ?case
    by simp
next
  case (Cons e ds)
  from Cons.prems have
    e: "\<not> (s + e + length rom \<le> length rpx
            \<and> detect_snes_rom_type (take 0x10000 (drop (s + e) rpx)) \<noteq> None)"
    and r: "\<forall>e\<in>set ds. \<not> (s + e + length rom \<le> length rpx
            \<and> detect_snes_rom_type (take 0x10000 (drop (s + e) rpx)) \<noteq> None)"
    by simp_all
  have "probe_deltas rpx rom SNES (int s) (int e # map int ds)
      = probe_deltas rpx rom SNES (int s) (map int ds)"
    unfolding probe_deltas_step by (rule if_not_P [OF e])
  also have "\<dots> = None"
    using r by (rule Cons.IH)
  finally show ?case
    unfolding list.map .
qed

lemma probe_offsets_int:
  "[0x20, 0x30, 0x40, 0x100, 0x200] = map int [0x20, 0x30, 0x40, 0x100, 0x200]"
  by simp

lemma strategy1_marker:
  assumes "occurs_at rpx WUP_SIGNATURE s" and "\<forall>k. k < s \<longrightarrow> \<not> occurs_at rpx WUP_SIGNATURE k"
  shows "strategy1 rpx rom system =
           probe_deltas rpx rom system (int s) (map int [0x20, 0x30, 0x40, 0x100, 0x200])"
proof -
  from assms have w: "find_wup_header rpx = int s"
    by (simp add: find_wup_header_def bytes_find_index_iff)
  have ne: "int s \<noteq> - 1"
    by simp
  show ?thesis
    unfolding strategy1_def Let_def w probe_offsets_int [symmetric] using ne by simp
qed

lemma strategy1_no_marker:
  assumes "\<forall>j. \<not> occurs_at rpx WUP_SIGNATURE j"
  shows "strategy1 rpx rom system = None"
proof -
  from assms have "find_wup_header rpx = - 1"
    by (simp add: find_wup_header_def bytes_find_none_iff)
  then show ?thesis
    by (simp add: strategy1_def)
qed

text \<open>
  Claim C4. The signature-anchored probe (strategy 1) comes first, and its success decides
  the result, whatever the other two strategies would find. Stated over the container:
  let \<open>s\<close> be the lowest offset at which the marker \<open>WUP-\<close> occurs, and call a delta
  good when the ROM fits between \<open>s\<close> plus the delta and the end of the container and
  the window of 0x10000 bytes at \<open>s\<close> plus the delta classifies as LoROM or HiROM. For the
  SNES, if \<open>d\<close> is the first good delta of 0x20, 0x30, 0x40, 0x100, 0x200 (the deltas
  \<open>pre\<close> before it are not good), then \<open>find_rom_in_rpx\<close> returns \<open>s + d\<close>. If no delta
  is good, or the marker occurs nowhere, the probe returns nothing: the result is that
  of the structural scan (strategy 2) if it succeeds, and of the content match
  (strategy 3) otherwise. The witness has a container whose marker is at 2, where 0x20 is
  not good and 0x30 is, and whose content match succeeds at 0: the locator returns 0x32.
\<close>

theorem find_rom_in_rpx_signature_first:
  "(occurs_at rpx WUP_SIGNATURE s \<and> (\<forall>k. k < s \<longrightarrow> \<not> occurs_at rpx WUP_SIGNATURE k)
      \<and> [0x20, 0x30, 0x40, 0x100, 0x200] = pre @ d # post
      \<and> (\<forall>e\<in>set pre. \<not> (s + e + length rom \<le> length rpx
            \<and> detect_snes_rom_type (take 0x10000 (drop (s + e) rpx)) \<noteq> None))
      \<and> s + d + length rom \<le> length rpx
      \<and> detect_snes_rom_type (take 0x10000 (drop (s + d) rpx)) \<noteq> None
    \<longrightarrow> find_rom_in_rpx rpx rom SNES = int (s + d))
   \<and> (occurs_at rpx WUP_SIGNATURE s \<and> (\<forall>k. k < s \<longrightarrow> \<not> occurs_at rpx WUP_SIGNATURE k)
      \<and> (\<forall>e\<in>set [0x20, 0x30, 0x40, 0x100, 0x200]. \<not> (s + e + length rom \<le> length rpx
            \<and> detect_snes_rom_type (take 0x10000 (drop (s + e) rpx)) \<noteq> None))
    \<longrightarrow> find_rom_in_rpx rpx rom SNES =
          (case strategy2 rpx rom SNES of Some offset \<Rightarrow> offset | None \<Rightarrow> strategy3 rpx rom))
   \<and> ((\<forall>j. \<not> occurs_at rpx WUP_SIGNATURE j)
    \<longrightarrow> find_rom_in_rpx rpx rom system =
          (case strategy2 rpx rom system of Some offset \<Rightarrow> offset | None \<Rightarrow> strategy3 rpx rom))"
proof (intro conjI impI)
  assume a: "occurs_at rpx WUP_SIGNATURE s \<and> (\<forall>k. k < s \<longrightarrow> \<not> occurs_at rpx WUP_SIGNATURE k)
      \<and> [0x20, 0x30, 0x40, 0x100, 0x200] = pre @ d # post
      \<and> (\<forall>e\<in>set pre. \<not> (s + e + length rom \<le> length rpx
            \<and> detect_snes_rom_type (take 0x10000 (drop (s + e) rpx)) \<noteq> None))
      \<and> s + d + length rom \<le> length rpx
      \<and> detect_snes_rom_type (take 0x10000 (drop (s + d) rpx)) \<noteq> None"
  then have sp: "[0x20, 0x30, 0x40, 0x100, 0x200] = pre @ d # post"
    by blast
  from a have "probe_deltas rpx rom SNES (int s) (map int (pre @ d # post)) = Some (int (s + d))"
    by (intro probe_deltas_first) blast+
  moreover from a have "strategy1 rpx rom SNES =
      probe_deltas rpx rom SNES (int s) (map int [0x20, 0x30, 0x40, 0x100, 0x200])"
    by (intro strategy1_marker) blast+
  ultimately have "strategy1 rpx rom SNES = Some (int (s + d))"
    unfolding sp by simp
  then show "find_rom_in_rpx rpx rom SNES = int (s + d)"
    by (simp add: find_rom_in_rpx_def)
next
  assume b: "occurs_at rpx WUP_SIGNATURE s \<and> (\<forall>k. k < s \<longrightarrow> \<not> occurs_at rpx WUP_SIGNATURE k)
      \<and> (\<forall>e\<in>set [0x20, 0x30, 0x40, 0x100, 0x200]. \<not> (s + e + length rom \<le> length rpx
            \<and> detect_snes_rom_type (take 0x10000 (drop (s + e) rpx)) \<noteq> None))"
  then have "probe_deltas rpx rom SNES (int s) (map int [0x20, 0x30, 0x40, 0x100, 0x200]) = None"
    by (intro probe_deltas_none) blast
  moreover from b have "strategy1 rpx rom SNES =
      probe_deltas rpx rom SNES (int s) (map int [0x20, 0x30, 0x40, 0x100, 0x200])"
    by (intro strategy1_marker) blast+
  ultimately have "strategy1 rpx rom SNES = None"
    by simp
  then show "find_rom_in_rpx rpx rom SNES =
      (case strategy2 rpx rom SNES of Some offset \<Rightarrow> offset | None \<Rightarrow> strategy3 rpx rom)"
    by (simp add: find_rom_in_rpx_def)
next
  assume "\<forall>j. \<not> occurs_at rpx WUP_SIGNATURE j"
  then have "strategy1 rpx rom system = None"
    by (rule strategy1_no_marker)
  then show "find_rom_in_rpx rpx rom system =
      (case strategy2 rpx rom system of Some offset \<Rightarrow> offset | None \<Rightarrow> strategy3 rpx rom)"
    by (simp add: find_rom_in_rpx_def)
qed

theorem find_rom_in_rpx_signature_first_witness:
  "find_rom_in_rpx ([0, 0] @ WUP_SIGNATURE @ replicate 32732 0 @ replicate 16 1 @ replicate 7252 0)
      ([0, 0] @ WUP_SIGNATURE @ replicate 1018 0) SNES = 0x32
   \<and> strategy3 ([0, 0] @ WUP_SIGNATURE @ replicate 32732 0 @ replicate 16 1 @ replicate 7252 0)
      ([0, 0] @ WUP_SIGNATURE @ replicate 1018 0) = 0
   \<and> find_rom_in_rpx (WUP_SIGNATURE @ [0, 0, 0, 0]) [1] SNES = - 1
   \<and> find_rom_in_rpx [0, 0, 0, 0, 0] [0, 0] SNES = 0"
proof -
  define C :: "byte list" where
    "C = [0, 0] @ WUP_SIGNATURE @ replicate 32732 0 @ replicate 16 1 @ replicate 7252 0"
  define R :: "byte list" where "R = [0, 0] @ WUP_SIGNATURE @ replicate 1018 0"
  define W1 :: "byte list" where "W1 = replicate 32704 0 @ replicate 16 1 @ replicate 7252 0"
  define W2 :: "byte list" where "W2 = replicate 32688 0 @ replicate 16 1 @ replicate 7252 0"
  have lenC: "length C = 40006" and lenR: "length R = 1024"
    by (simp_all add: C_def R_def WUP_SIGNATURE_def)
  have o: "occurs_at C WUP_SIGNATURE 2"
    by (simp add: C_def occurs_at_def WUP_SIGNATURE_def)
  have l: "\<forall>k. k < 2 \<longrightarrow> \<not> occurs_at C WUP_SIGNATURE k"
    by (simp add: C_def occurs_at_def WUP_SIGNATURE_def less_2_cases_iff)
  have w1: "take 65536 (drop 34 C) = W1"
    by (simp add: C_def W1_def WUP_SIGNATURE_def)
  have w2: "take 65536 (drop 50 C) = W2"
    by (simp add: C_def W2_def WUP_SIGNATURE_def)
  have v1: "\<not> validate_snes_header W1 0x7FC0"
    by (simp add: W1_def validate_snes_header_def header_checksum_def header_complement_def
      unpack_H_def SNES_CHECKSUM_OFFSET_def SNES_CHECKSUM_COMP_OFFSET_def SNES_TITLE_OFFSET_def
      and_ffff_nat nth_append filter_replicate_if word_le_nat_alt)
  have v2: "validate_snes_header W2 0x7FC0"
    by (simp add: W2_def validate_snes_header_def header_checksum_def header_complement_def
      unpack_H_def SNES_CHECKSUM_OFFSET_def SNES_CHECKSUM_COMP_OFFSET_def SNES_TITLE_OFFSET_def
      and_ffff_nat nth_append)
  have d1: "detect_snes_rom_type W1 = None"
    using v1 by (simp add: detect_snes_rom_type_def SNES_LOROM_HEADER_def SNES_HIROM_HEADER_def W1_def)
  have d2: "detect_snes_rom_type W2 = Some LoROM"
    using v2 by (simp add: detect_snes_rom_type_def SNES_LOROM_HEADER_def W2_def)
  have a: "find_rom_in_rpx C R SNES = 0x32"
    using find_rom_in_rpx_signature_first [where rpx = C and rom = R and s = 2
        and pre = "[0x20]" and d = "0x30" and post = "[0x40, 0x100, 0x200]"]
      o l w1 w2 d1 d2 lenC lenR
    by simp
  have "prefix R C"
    by (simp add: C_def R_def prefix_replicate)
  then have "bytes_find C R = 0"
    by (cases C) (simp_all add: bytes_find_def)
  moreover have "py_slice_to R 1024 = R"
    by (simp add: py_slice_to_def py_clamp_def lenR)
  ultimately have s3: "strategy3 C R = 0"
    by (simp add: strategy3_def)
  have o0: "occurs_at (WUP_SIGNATURE @ [0, 0, 0, 0]) WUP_SIGNATURE 0"
    by (simp add: occurs_at_def)
  have b2: "strategy2 (WUP_SIGNATURE @ [0, 0, 0, 0]) [1] SNES = None"
    by (simp add: strategy2_def detect_snes_rom_type_def SNES_LOROM_HEADER_def SNES_HIROM_HEADER_def)
  have b3: "strategy3 (WUP_SIGNATURE @ [0, 0, 0, 0]) [1] = - 1"
    by (simp add: strategy3_def py_slice_to_def py_clamp_def bytes_find_def WUP_SIGNATURE_def)
  have b: "find_rom_in_rpx (WUP_SIGNATURE @ [0, 0, 0, 0]) [1] SNES = - 1"
    using find_rom_in_rpx_signature_first [where rpx = "WUP_SIGNATURE @ [0, 0, 0, 0]"
        and rom = "[1]" and s = 0] o0 b2 b3
    by (simp add: WUP_SIGNATURE_def)
  have "bytes_find [0, 0, 0, 0, 0] WUP_SIGNATURE = - 1"
    by (simp add: bytes_find_def WUP_SIGNATURE_def)
  then have n: "\<forall>j. \<not> occurs_at [0, 0, 0, 0, 0] WUP_SIGNATURE j"
    unfolding bytes_find_none_iff .
  have c2: "strategy2 [0, 0, 0, 0, 0] [0, 0] SNES = None"
    by (simp add: strategy2_def detect_snes_rom_type_def SNES_LOROM_HEADER_def SNES_HIROM_HEADER_def)
  have c3: "strategy3 [0, 0, 0, 0, 0] [0, 0] = 0"
    by (simp add: strategy3_def py_slice_to_def py_clamp_def bytes_find_def)
  have c: "find_rom_in_rpx [0, 0, 0, 0, 0] [0, 0] SNES = 0"
    using find_rom_in_rpx_signature_first [where rpx = "[0, 0, 0, 0, 0]"
        and rom = "[0, 0]" and system = SNES] n c2 c3
    by simp
  from a s3 b c show ?thesis
    unfolding C_def R_def by simp
qed

end
